theory Spec2Isabelle
  imports Main "HOL-Library.Sublist"
begin

section \<open>Text, tokens and markers\<close>

text \<open>
  A Python \<^verbatim>\<open>str\<close> is a sequence of Unicode code points, so a character is its code
  point and a string is a list of them. An item of a token stream is a token string or
  the marker \<^verbatim>\<open>None\<close>.
\<close>

type_synonym uchar = nat
type_synonym ustr = "uchar list"
type_synonym item = "ustr option"

definition str :: "string \<Rightarrow> ustr" where
  "str s = map of_char s"

text \<open>
  The regular expression classes \<^verbatim>\<open>\w\<close>, \<^verbatim>\<open>\d\<close>, \<^verbatim>\<open>\s\<close> (under \<^verbatim>\<open>re.UNICODE\<close>) and the
  method \<^verbatim>\<open>str.isupper\<close> read the Unicode character database of the interpreter, which
  is no part of the source file. The database is a parameter of the model.
\<close>

record ucd =
  isalnum :: "uchar \<Rightarrow> bool"
  isdecimal :: "uchar \<Rightarrow> bool"
  isspace :: "uchar \<Rightarrow> bool"
  isupper :: "uchar \<Rightarrow> bool"

text \<open>
  The database on the code points below 256 (ASCII and Latin-1 Supplement), which is all
  that the concrete inputs below contain; no larger code point is classified.
\<close>

definition latin1 :: ucd where
  "latin1 = \<lparr>
     isalnum = (\<lambda>c. (48 \<le> c \<and> c \<le> 57) \<or> (65 \<le> c \<and> c \<le> 90) \<or> (97 \<le> c \<and> c \<le> 122)
        \<or> c = 170 \<or> c = 178 \<or> c = 179 \<or> c = 181 \<or> c = 185 \<or> c = 186
        \<or> (188 \<le> c \<and> c \<le> 190) \<or> (192 \<le> c \<and> c \<le> 214) \<or> (216 \<le> c \<and> c \<le> 246)
        \<or> (248 \<le> c \<and> c \<le> 255)),
     isdecimal = (\<lambda>c. 48 \<le> c \<and> c \<le> 57),
     isspace = (\<lambda>c. (9 \<le> c \<and> c \<le> 13) \<or> (28 \<le> c \<and> c \<le> 32) \<or> c = 133 \<or> c = 160),
     isupper = (\<lambda>c. (65 \<le> c \<and> c \<le> 90) \<or> (192 \<le> c \<and> c \<le> 214) \<or> (216 \<le> c \<and> c \<le> 222)) \<rparr>"

section \<open>Lexer: \<^verbatim>\<open>tokenizer_re\<close> and \<^verbatim>\<open>tokenize\<close>\<close>

text \<open>
  \<^verbatim>\<open>\w\<close> is an alphanumeric character or the underscore. \<open>run P s\<close> is the number of
  characters a greedy \<^verbatim>\<open>P*\<close> takes at the start of \<open>s\<close>.
\<close>

definition word_char :: "ucd \<Rightarrow> uchar \<Rightarrow> bool" where
  "word_char U c \<longleftrightarrow> isalnum U c \<or> c = 95"

definition run :: "(uchar \<Rightarrow> bool) \<Rightarrow> ustr \<Rightarrow> nat" where
  "run P s = length (takeWhile P s)"

text \<open>
  Every alternative of the expression ends in optional or repeated parts only, so what
  follows a greedy repetition never fails and the engine never gives back what the
  repetition took: each function below returns the length of the one match the
  backtracking engine finds first, or \<open>None\<close>.

  First alternative, \<^verbatim>\<open>\w+(?:(?=[^/])\S\w+)*-?\<close>. \<open>word_ext\<close> is the repeated group: one
  character that is neither \<^verbatim>\<open>/\<close> (47) nor whitespace, then one or more word characters.
\<close>

fun word_ext :: "ucd \<Rightarrow> ustr \<Rightarrow> nat" where
  "word_ext U [] = 0"
| "word_ext U (c # r) =
     (if c \<noteq> 47 \<and> \<not> isspace U c \<and> 0 < run (word_char U) r
      then 1 + run (word_char U) r + word_ext U (drop (run (word_char U) r) r)
      else 0)"

definition match_word :: "ucd \<Rightarrow> ustr \<Rightarrow> nat option" where
  "match_word U s =
     (let n = run (word_char U) s in
      if n = 0 then None
      else (let m = n + word_ext U (drop n s) in
            case drop m s of
              [] \<Rightarrow> Some m
            | c # r \<Rightarrow> if c = 45 then Some (m + 1) else Some m))"

text \<open>
  Second alternative, \<^verbatim>\<open>[+.]?\d+(?:[\s:/,.-]\d+)*\<close>. The optional sign or point is tried
  first; when no digit follows it, the engine tries again without it.
\<close>

definition num_sep :: "ucd \<Rightarrow> uchar \<Rightarrow> bool" where
  "num_sep U c \<longleftrightarrow> isspace U c \<or> c = 58 \<or> c = 47 \<or> c = 44 \<or> c = 46 \<or> c = 45"

fun num_ext :: "ucd \<Rightarrow> ustr \<Rightarrow> nat" where
  "num_ext U [] = 0"
| "num_ext U (c # r) =
     (if num_sep U c \<and> 0 < run (isdecimal U) r
      then 1 + run (isdecimal U) r + num_ext U (drop (run (isdecimal U) r) r)
      else 0)"

definition digits :: "ucd \<Rightarrow> ustr \<Rightarrow> nat option" where
  "digits U s =
     (let n = run (isdecimal U) s in
      if n = 0 then None else Some (n + num_ext U (drop n s)))"

definition match_num :: "ucd \<Rightarrow> ustr \<Rightarrow> nat option" where
  "match_num U s =
     (case s of
        [] \<Rightarrow> None
      | c # r \<Rightarrow>
          if c = 43 \<or> c = 46
          then (case digits U r of Some n \<Rightarrow> Some (1 + n) | None \<Rightarrow> digits U s)
          else digits U s)"

text \<open>
  Third alternative, the group \<^verbatim>\<open>para\<close>: \<^verbatim>\<open>\n(\s*\n)+\<close>. \<open>space_nl\<close> is one round of
  \<^verbatim>\<open>\s*\n\<close>: the greedy \<^verbatim>\<open>\s*\<close> takes a whitespace character and goes on, and gives it
  back when no newline (10) can follow. \<open>space_nl_plus\<close> repeats the round while it
  succeeds.
\<close>

fun space_nl :: "ucd \<Rightarrow> ustr \<Rightarrow> nat option" where
  "space_nl U [] = None"
| "space_nl U (c # r) =
     (case (if isspace U c then space_nl U r else None) of
        Some n \<Rightarrow> Some (1 + n)
      | None \<Rightarrow> if c = 10 then Some 1 else None)"

lemma space_nl_bounds: "space_nl U s = Some n \<Longrightarrow> 0 < n \<and> n \<le> length s"
  by (induction s arbitrary: n) (auto split: option.splits if_splits)

function space_nl_plus :: "ucd \<Rightarrow> ustr \<Rightarrow> nat" where
  "space_nl_plus U s =
     (case space_nl U s of
        None \<Rightarrow> 0
      | Some n \<Rightarrow> n + space_nl_plus U (drop n s))"
  by pat_completeness auto
termination
proof (relation "measure (\<lambda>(U, s). length s)")
  show "wf (measure (\<lambda>(U, s). length s))" by simp
next
  fix U :: ucd and s :: ustr and n :: nat
  assume "space_nl U s = Some n"
  then have "0 < n \<and> n \<le> length s" by (rule space_nl_bounds)
  then show "((U, drop n s), (U, s)) \<in> measure (\<lambda>(U, s). length s)" by auto
qed

declare space_nl_plus.simps [simp del]

definition match_para :: "ucd \<Rightarrow> ustr \<Rightarrow> nat option" where
  "match_para U s =
     (case s of
        [] \<Rightarrow> None
      | c # r \<Rightarrow>
          if c = 10
          then (case space_nl U r of
                  None \<Rightarrow> None
                | Some n \<Rightarrow> Some (1 + n + space_nl_plus U (drop n r)))
          else None)"

text \<open>
  Fourth alternative, \<^verbatim>\<open>(?P<char>\S)(?P=char)+\<close>: a character that is not whitespace,
  repeated at least once more. Fifth alternative, \<^verbatim>\<open>\S\<close>.
\<close>

definition match_repeat :: "ucd \<Rightarrow> ustr \<Rightarrow> nat option" where
  "match_repeat U s =
     (case s of
        [] \<Rightarrow> None
      | c # r \<Rightarrow>
          if \<not> isspace U c \<and> 0 < run (\<lambda>x. x = c) r
          then Some (1 + run (\<lambda>x. x = c) r)
          else None)"

definition match_single :: "ucd \<Rightarrow> ustr \<Rightarrow> nat option" where
  "match_single U s =
     (case s of
        [] \<Rightarrow> None
      | c # r \<Rightarrow> if \<not> isspace U c then Some 1 else None)"

text \<open>
  The alternatives are tried in the order they are written, and the first one that
  matches wins. A match is the alternative that matched and the length of the text.
\<close>

datatype rule = Word | Numeric | Para | Repeat | Single

definition match_at :: "ucd \<Rightarrow> ustr \<Rightarrow> (rule \<times> nat) option" where
  "match_at U s =
     (case match_word U s of Some n \<Rightarrow> Some (Word, n) | None \<Rightarrow>
     (case match_num U s of Some n \<Rightarrow> Some (Numeric, n) | None \<Rightarrow>
     (case match_para U s of Some n \<Rightarrow> Some (Para, n) | None \<Rightarrow>
     (case match_repeat U s of Some n \<Rightarrow> Some (Repeat, n) | None \<Rightarrow>
     (case match_single U s of Some n \<Rightarrow> Some (Single, n) | None \<Rightarrow> None)))))"

lemma run_le: "run P s \<le> length s"
  by (simp add: run_def length_takeWhile_le)

lemma word_ext_le: "word_ext U s \<le> length s"
proof (induction U s rule: word_ext.induct)
  case (1 U)
  show ?case by simp
next
  case (2 U c r)
  have "run (word_char U) r \<le> length r" by (rule run_le)
  with 2 show ?case by auto
qed

lemma num_ext_le: "num_ext U s \<le> length s"
proof (induction U s rule: num_ext.induct)
  case (1 U)
  show ?case by simp
next
  case (2 U c r)
  have "run (isdecimal U) r \<le> length r" by (rule run_le)
  with 2 show ?case by auto
qed

lemma space_nl_plus_le: "space_nl_plus U s \<le> length s"
proof (induction U s rule: space_nl_plus.induct)
  case (1 U s)
  show ?case
  proof (cases "space_nl U s")
    case None
    then show ?thesis by (simp add: space_nl_plus.simps)
  next
    case (Some n)
    then have "0 < n \<and> n \<le> length s" by (rule space_nl_bounds)
    moreover have "space_nl_plus U (drop n s) \<le> length (drop n s)"
      using 1 Some by simp
    ultimately show ?thesis using Some by (simp add: space_nl_plus.simps [of U s]) arith
  qed
qed

lemma match_word_bounds: "match_word U s = Some n \<Longrightarrow> 0 < n \<and> n \<le> length s"
proof -
  assume a: "match_word U s = Some n"
  let ?n = "run (word_char U) s"
  let ?m = "?n + word_ext U (drop ?n s)"
  have le: "?m \<le> length s"
    using run_le [of "word_char U" s] word_ext_le [of U "drop ?n s"] by simp
  from a have pos: "0 < ?n"
    by (auto simp: match_word_def Let_def split: if_splits)
  from a pos have "n = ?m \<or> (n = ?m + 1 \<and> drop ?m s \<noteq> [])"
    by (auto simp: match_word_def Let_def split: if_splits list.splits)
  then show ?thesis
  proof
    assume "n = ?m"
    with le pos show ?thesis by simp
  next
    assume b: "n = ?m + 1 \<and> drop ?m s \<noteq> []"
    then have "?m < length s" by simp
    with b show ?thesis by simp
  qed
qed

lemma digits_bounds: "digits U s = Some n \<Longrightarrow> 0 < n \<and> n \<le> length s"
  using run_le [of "isdecimal U" s] num_ext_le [of U "drop (run (isdecimal U) s) s"]
  by (auto simp: digits_def Let_def split: if_splits)

lemma match_num_bounds: "match_num U s = Some n \<Longrightarrow> 0 < n \<and> n \<le> length s"
  by (cases s) (auto simp: match_num_def split: if_splits option.splits dest: digits_bounds)

lemma match_para_bounds: "match_para U s = Some n \<Longrightarrow> 0 < n \<and> n \<le> length s"
proof (cases s)
  case Nil
  assume "match_para U s = Some n"
  with Nil show ?thesis by (simp add: match_para_def)
next
  case (Cons c r)
  assume "match_para U s = Some n"
  with Cons obtain k where k: "space_nl U r = Some k" "n = 1 + k + space_nl_plus U (drop k r)"
    by (auto simp: match_para_def split: if_splits option.splits)
  from k(1) have "0 < k \<and> k \<le> length r" by (rule space_nl_bounds)
  moreover have "space_nl_plus U (drop k r) \<le> length (drop k r)" by (rule space_nl_plus_le)
  ultimately show ?thesis using k(2) Cons by simp arith
qed

lemma match_repeat_bounds: "match_repeat U s = Some n \<Longrightarrow> 0 < n \<and> n \<le> length s"
proof (cases s)
  case Nil
  assume "match_repeat U s = Some n"
  with Nil show ?thesis by (simp add: match_repeat_def)
next
  case (Cons c r)
  assume "match_repeat U s = Some n"
  with Cons have "n = 1 + run (\<lambda>x. x = c) r"
    by (auto simp: match_repeat_def split: if_splits)
  with Cons run_le [of "\<lambda>x. x = c" r] show ?thesis by simp
qed

lemma match_single_bounds: "match_single U s = Some n \<Longrightarrow> 0 < n \<and> n \<le> length s"
  by (cases s) (auto simp: match_single_def split: if_splits)

lemma match_at_bounds: "match_at U s = Some (k, n) \<Longrightarrow> 0 < n \<and> n \<le> length s"
  unfolding match_at_def
  by (auto split: option.splits
      dest: match_word_bounds match_num_bounds match_para_bounds match_repeat_bounds
        match_single_bounds)

text \<open>
  \<^verbatim>\<open>finditer\<close> scans the text from left to right: where the expression matches, the match
  is reported and the scan goes on at its end; where it does not, the scan moves one
  character on. No alternative matches the empty string, and none looks behind the
  position it starts at, so a match depends on the rest of the text only. A match
  object records where the match starts and ends and which alternative matched.
\<close>

record re_match =
  start :: nat
  stop :: nat
  alt :: rule

function finditer_loop :: "ucd \<Rightarrow> nat \<Rightarrow> ustr \<Rightarrow> re_match list" where
  "finditer_loop U pos [] = []"
| "finditer_loop U pos (c # r) =
     (case match_at U (c # r) of
        None \<Rightarrow> finditer_loop U (pos + 1) r
      | Some (k, n) \<Rightarrow>
          \<lparr>start = pos, stop = pos + n, alt = k\<rparr> # finditer_loop U (pos + n) (drop n (c # r)))"
  by pat_completeness auto
termination
proof (relation "measure (\<lambda>(U, pos, s). length s)")
  show "wf (measure (\<lambda>(U, pos, s). length s))" by simp
next
  fix U :: ucd and pos :: nat and c :: uchar and r :: ustr
  show "((U, pos + 1, r), (U, pos, c # r)) \<in> measure (\<lambda>(U, pos, s). length s)" by simp
next
  fix U :: ucd and pos :: nat and c :: uchar and r :: ustr and x :: "rule \<times> nat"
    and k :: rule and n :: nat
  assume "match_at U (c # r) = Some x" "(k, n) = x"
  then have "0 < n \<and> n \<le> length (c # r)" using match_at_bounds [of U "c # r" k n] by simp
  then show "((U, pos + n, drop n (c # r)), (U, pos, c # r)) \<in> measure (\<lambda>(U, pos, s). length s)"
    by auto
qed

definition finditer :: "ucd \<Rightarrow> ustr \<Rightarrow> re_match list" where
  "finditer U data = finditer_loop U 0 data"

text \<open>
  \<^verbatim>\<open>tokenize\<close> yields the marker for a match of the group \<^verbatim>\<open>para\<close> and the matched text,
  \<^verbatim>\<open>match.group(0)\<close>, for every other match.
\<close>

definition group0 :: "ustr \<Rightarrow> re_match \<Rightarrow> ustr" where
  "group0 data m = take (stop m - start m) (drop (start m) data)"

definition token_of :: "ustr \<Rightarrow> re_match \<Rightarrow> item" where
  "token_of data m = (if alt m = Para then None else Some (group0 data m))"

definition tokenize :: "ucd \<Rightarrow> ustr \<Rightarrow> item list" where
  "tokenize U data = map (token_of data) (finditer U data)"

section \<open>Exceptions and generators\<close>

text \<open>
  Every exception the three components can raise is a value. A generator function's
  run is the list of the items it yielded and the way its frame ended. \<open>generator\<close> is
  what the consumer of the generator object sees: a \<^verbatim>\<open>StopIteration\<close> that leaves the
  frame of a generator is replaced by a \<^verbatim>\<open>RuntimeError\<close> (PEP 479, the behaviour of every
  interpreter from Python 3.7 on); the file has no handler and no \<^verbatim>\<open>__future__\<close> import
  that changes this.
\<close>

datatype exn = StopIteration | IndexError | KeyError | RuntimeError

datatype outcome = Returned | Raised exn

definition generator :: "'a list \<times> outcome \<Rightarrow> 'a list \<times> outcome" where
  "generator g =
     (case g of
        (ys, Raised StopIteration) \<Rightarrow> (ys, Raised RuntimeError)
      | (ys, how) \<Rightarrow> (ys, how))"

section \<open>\<^verbatim>\<open>PeekableIterator\<close>\<close>

text \<open>
  The object holds the underlying iterator, here the list of the items it has not yet
  produced, and the cache of items read ahead. \<^verbatim>\<open>_fill_cache\<close> appends to the cache
  until it holds \<open>n\<close> items; \<^verbatim>\<open>next\<close> of the exhausted underlying iterator raises
  \<^verbatim>\<open>StopIteration\<close>, and the items appended before that stay in the cache.
\<close>

record peekable =
  iterable :: "item list"
  cache :: "item list"

function fill_cache :: "nat \<Rightarrow> peekable \<Rightarrow> exn option \<times> peekable" where
  "fill_cache n it =
     (if length (cache it) < n
      then (case iterable it of
              [] \<Rightarrow> (Some StopIteration, it)
            | x # xs \<Rightarrow> fill_cache n (it\<lparr>iterable := xs, cache := cache it @ [x]\<rparr>))
      else (None, it))"
  by pat_completeness auto
termination
  by (relation "measure (\<lambda>(n, it). length (iterable it))") auto

declare fill_cache.simps [simp del]

text \<open>\<^verbatim>\<open>__next__()\<close>, \<^verbatim>\<open>peek(n)\<close> and \<^verbatim>\<open>peek()\<close>; without an argument \<open>n\<close> is 1.\<close>

definition next_item :: "peekable \<Rightarrow> (exn + item) \<times> peekable" where
  "next_item it =
     (case fill_cache 1 it of
        (Some e, it') \<Rightarrow> (Inl e, it')
      | (None, it') \<Rightarrow> (Inr (hd (cache it')), it'\<lparr>cache := tl (cache it')\<rparr>))"

definition peek_items :: "nat \<Rightarrow> peekable \<Rightarrow> (exn + item list) \<times> peekable" where
  "peek_items n it =
     (case fill_cache n it of
        (Some e, it') \<Rightarrow> (Inl e, it')
      | (None, it') \<Rightarrow> (Inr (take n (cache it')), it'))"

definition peek_item :: "peekable \<Rightarrow> (exn + item) \<times> peekable" where
  "peek_item it =
     (case fill_cache 1 it of
        (Some e, it') \<Rightarrow> (Inl e, it')
      | (None, it') \<Rightarrow> (Inr (hd (cache it')), it'))"

text \<open>
  What a client can observe of the object is the list of the items it has not consumed:
  the cache followed by the rest of the underlying iterator. The three operations on
  that list:
\<close>

definition remaining :: "peekable \<Rightarrow> item list" where
  "remaining it = cache it @ iterable it"

definition peek :: "nat \<Rightarrow> item list \<Rightarrow> exn + item list" where
  "peek n tokens = (if length tokens < n then Inl StopIteration else Inr (take n tokens))"

definition peek1 :: "item list \<Rightarrow> exn + item" where
  "peek1 tokens = (case tokens of [] \<Rightarrow> Inl StopIteration | x # xs \<Rightarrow> Inr x)"

fun advance :: "item list \<Rightarrow> exn + (item \<times> item list)" where
  "advance [] = Inl StopIteration"
| "advance (x # xs) = Inr (x, xs)"

section \<open>Abbreviation Resolver: \<^verbatim>\<open>join_abbrevs\<close>\<close>

text \<open>
  The abbreviation table is a dictionary from tuples of stream items to the string that
  replaces them: an association list read with \<open>map_of\<close>. \<open>abbrev_prefixes\<close> is the set
  of the non-empty prefixes of its keys, \<open>max_abbrev_length\<close> the length of its longest
  key.
\<close>

type_synonym key = "item list"
type_synonym table = "(key \<times> ustr) list"

definition abbrev_prefixes :: "table \<Rightarrow> key set" where
  "abbrev_prefixes abbrevs =
     set (concat (map (\<lambda>(abbrev, v). map (\<lambda>i. take (i + 1) abbrev) [0..<length abbrev]) abbrevs))"

definition max_abbrev_length :: "table \<Rightarrow> nat" where
  "max_abbrev_length abbrevs =
     (if abbrevs \<noteq> [] then Max (set (map (\<lambda>(abbrev, v). length abbrev) abbrevs)) else 0)"

text \<open>
  The lookahead loop \<^verbatim>\<open>for i in range(max_abbrev_length)\<close>, from the round \<open>i\<close> on; its
  result is \<^verbatim>\<open>longest_candidate\<close>. Each of the four \<^verbatim>\<open>break\<close> statements ends it: the
  peek beyond the end of the stream, the candidate that is no prefix of a key, the
  final period, and the candidate that is a key.
\<close>

function scan :: "table \<Rightarrow> item \<Rightarrow> item list \<Rightarrow> nat \<Rightarrow> key option" where
  "scan abbrevs token tokens i =
     (if i < max_abbrev_length abbrevs
      then (case peek (i + 1) tokens of
              Inl e \<Rightarrow> None
            | Inr ahead \<Rightarrow>
                (let candidate = token # ahead in
                 if candidate \<notin> abbrev_prefixes abbrevs then None
                 else if map_of abbrevs candidate \<noteq> None
                 then (if token = Some [46] \<and> last ahead = None then None
                       else Some candidate)
                 else scan abbrevs token tokens (i + 1)))
      else None)"
  by pat_completeness auto
termination
  by (relation "measure (\<lambda>(abbrevs, token, tokens, i). max_abbrev_length abbrevs - i)") auto

declare scan.simps [simp del]

text \<open>
  The sentence boundary test of the last branch, evaluated from left to right:
  \<^verbatim>\<open>None not in (token, next_token) and (not was_abbrev) and token[-1] in ".:!?" and
  next_token[0].isupper()\<close>. Indexing an empty string raises \<^verbatim>\<open>IndexError\<close>.
\<close>

definition boundary :: "ucd \<Rightarrow> bool \<Rightarrow> item \<Rightarrow> item \<Rightarrow> exn + bool" where
  "boundary U was_abbrev token next_token =
     (case (token, next_token) of
        (Some t, Some n) \<Rightarrow>
          if was_abbrev then Inr False
          else if t = [] then Inl IndexError
          else if last t \<notin> {46, 58, 33, 63} then Inr False
          else if n = [] then Inl IndexError
          else Inr (isupper U (hd n))
      | _ \<Rightarrow> Inr False)"

text \<open>
  \<^verbatim>\<open>for _ in longest_candidate[:-1]: next(tokens)\<close> takes \<open>n\<close> items off the stream.
\<close>

fun skip :: "nat \<Rightarrow> item list \<Rightarrow> exn + item list" where
  "skip 0 tokens = Inr tokens"
| "skip (Suc n) tokens =
     (case advance tokens of Inl e \<Rightarrow> Inl e | Inr (x, xs) \<Rightarrow> skip n xs)"

text \<open>
  One round of the loop \<^verbatim>\<open>for token in tokens\<close>, for the token just taken and the items
  after it: the items the round yields, and either the flag \<^verbatim>\<open>was_abbrev\<close> and the rest
  of the stream for the next round, or the exception that ends the frame.
\<close>

datatype step = Continue bool "item list" | Raise exn

definition body :: "ucd \<Rightarrow> table \<Rightarrow> bool \<Rightarrow> item \<Rightarrow> item list \<Rightarrow> item list \<times> step" where
  "body U abbrevs was_abbrev token tokens =
     (if [token] \<in> abbrev_prefixes abbrevs
      then (case scan abbrevs token tokens 0 of
              Some longest_candidate \<Rightarrow>
                (case skip (length (butlast longest_candidate)) tokens of
                   Inl e \<Rightarrow> ([], Raise e)
                 | Inr tokens' \<Rightarrow>
                     (case map_of abbrevs longest_candidate of
                        None \<Rightarrow> ([], Raise KeyError)
                      | Some v \<Rightarrow> ([Some v], Continue True tokens')))
            | None \<Rightarrow> ([token], Continue was_abbrev tokens))
      else (case peek1 tokens of
              Inl e \<Rightarrow> ([token], Raise e)
            | Inr next_token \<Rightarrow>
                (case boundary U was_abbrev token next_token of
                   Inl e \<Rightarrow> ([token], Raise e)
                 | Inr b \<Rightarrow> (token # (if b then [None] else []), Continue False tokens))))"

lemma skip_length: "skip n tokens = Inr tokens' \<Longrightarrow> length tokens' \<le> length tokens"
proof (induction n arbitrary: tokens)
  case 0
  then show ?case by simp
next
  case (Suc n)
  then show ?case by (cases tokens) (auto dest: Suc.IH)
qed

lemma body_length:
  "body U abbrevs was_abbrev token tokens = (out, Continue was_abbrev' tokens') \<Longrightarrow>
     length tokens' \<le> length tokens"
  by (auto simp: body_def split: if_splits option.splits sum.splits dest: skip_length)

function loop :: "ucd \<Rightarrow> table \<Rightarrow> bool \<Rightarrow> item list \<Rightarrow> item list \<times> outcome" where
  "loop U abbrevs was_abbrev [] = ([], Returned)"
| "loop U abbrevs was_abbrev (token # tokens) =
     (case body U abbrevs was_abbrev token tokens of
        (out, Raise e) \<Rightarrow> (out, Raised e)
      | (out, Continue was_abbrev' tokens') \<Rightarrow>
          (case loop U abbrevs was_abbrev' tokens' of
             (out', how) \<Rightarrow> (out @ out', how)))"
  by pat_completeness auto
termination
  by (relation "measure (\<lambda>(U, abbrevs, was_abbrev, tokens). length tokens)")
    (auto dest: body_length body_length [OF sym])

declare loop.simps [simp del]

text \<open>
  \<^verbatim>\<open>join_abbrevs\<close>: the frame starts with \<^verbatim>\<open>was_abbrev = False\<close> on the whole stream.
\<close>

definition join_abbrevs_frame :: "ucd \<Rightarrow> table \<Rightarrow> item list \<Rightarrow> item list \<times> outcome" where
  "join_abbrevs_frame U abbrevs tokens = loop U abbrevs False tokens"

definition join_abbrevs :: "ucd \<Rightarrow> table \<Rightarrow> item list \<Rightarrow> item list \<times> outcome" where
  "join_abbrevs U abbrevs tokens = generator (join_abbrevs_frame U abbrevs tokens)"

section \<open>Sentence Grouper: \<^verbatim>\<open>group_sentences\<close>\<close>

text \<open>
  \<open>group_loop\<close> is the \<^verbatim>\<open>for\<close> loop with the accumulator \<^verbatim>\<open>sentence\<close>: the sentences
  it yields and the accumulator it ends with. The statement after the loop runs when
  the stream ends, not when taking the next item raises.
\<close>

fun group_loop :: "ustr list \<Rightarrow> item list \<Rightarrow> ustr list list \<times> ustr list" where
  "group_loop sentence [] = ([], sentence)"
| "group_loop sentence (None # tokens) =
     (case group_loop [] tokens of
        (out, s) \<Rightarrow> ((if sentence \<noteq> [] then [sentence] else []) @ out, s))"
| "group_loop sentence (Some token # tokens) = group_loop (sentence @ [token]) tokens"

definition group_sentences_frame :: "item list \<times> outcome \<Rightarrow> ustr list list \<times> outcome" where
  "group_sentences_frame g =
     (case g of (tokens, how) \<Rightarrow>
        (case group_loop [] tokens of (out, sentence) \<Rightarrow>
           (case how of
              Returned \<Rightarrow> (out @ (if sentence \<noteq> [] then [sentence] else []), Returned)
            | Raised e \<Rightarrow> (out, Raised e))))"

definition group_sentences :: "item list \<times> outcome \<Rightarrow> ustr list list \<times> outcome" where
  "group_sentences g = generator (group_sentences_frame g)"

section \<open>The pipeline\<close>

text \<open>
  The main program: \<^verbatim>\<open>tokenize(data.strip())\<close>, then \<^verbatim>\<open>join_abbrevs\<close>, then
  \<^verbatim>\<open>group_sentences\<close>. The result is the list of the sentences the main loop receives and
  the way the iteration ends.
\<close>

definition strip :: "ucd \<Rightarrow> ustr \<Rightarrow> ustr" where
  "strip U data = rev (dropWhile (isspace U) (rev (dropWhile (isspace U) data)))"

definition pipeline :: "ucd \<Rightarrow> table \<Rightarrow> ustr \<Rightarrow> ustr list list \<times> outcome" where
  "pipeline U abbrevs data =
     group_sentences (join_abbrevs U abbrevs (tokenize U (strip U data)))"

section \<open>The table of the source and the inputs of the examples\<close>

text \<open>
  The table \<^verbatim>\<open>ABBREVS\<close> of the source, unpickled: 59 keys, all of them tuples of
  strings. \<open>strs\<close> writes such a tuple; the one letter outside ASCII is the code point
  246.
\<close>

definition strs :: "string list \<Rightarrow> key" where
  "strs ts = map (\<lambda>t. Some (str t)) ts"

definition ABBREVS :: table where
  "ABBREVS =
     [(strs [''Bl.a'', ''.''], str ''Bl.a.''),
      (strs [''f'', ''.'', ''n'', ''.''], str ''f.n.''),
      (strs [''e'', ''d''], str ''e_d''),
      (strs [''t'', ''v''], str ''t_v''),
      (strs [''O'', ''s'', ''v''], str ''O_s_v''),
      (strs [''m'', ''m''], str ''m_m''),
      (strs [''e'', ''Kr''], str ''e_Kr''),
      (strs [''m.fl'', ''.''], str ''m.fl.''),
      (strs [''d'', ''y''], str ''d_y''),
      (strs [''m'', ''.'', ''m'', ''.''], str ''m.m.''),
      (strs [''m'', ''fl'', ''.''], str ''m_fl.''),
      (strs [''f'', ''d''], str ''f_d''),
      (strs [''f'', ''Kr''], str ''f_Kr''),
      (strs [''s'', ''.'', ''k'', ''.''], str ''s.k.''),
      (strs [''osv'', ''.''], str ''osv.''),
      (strs [''t'', ''o'', ''m''], str ''t_o_m''),
      (strs [''etc'', ''.''], str ''etc.''),
      (strs [''o'', ''.'', ''s'', ''.'', ''v'', ''.''], str ''o.s.v.''),
      (strs [''m'', ''m'', ''.''], str ''m_m.''),
      (strs [''s'', ''.''], str ''s.''),
      (strs [''e'', ''.'', ''d'', ''.''], str ''e.d.''),
      (strs [''bl'', ''a''], str ''bl_a''),
      (strs [''t'', ''.'', ''v'', ''.''], str ''t.v.''),
      (strs [''i'', ''st'', ''f''], str ''i_st_f''),
      (strs [''o'', ''dyl''], str ''o_dyl''),
      (strs [''s'', ''k''], str ''s_k''),
      (strs [''d'', ''v'', ''s''], str ''d_v_s''),
      (strs [''T'', ''o'', ''m''], str ''T_o_m''),
      (strs [''S'', ''k''], str ''S_k''),
      (strs [''t'', ''.'', ''ex''], str ''t.ex''),
      (strs [''t'', ''o'', ''r''], str ''t_o_r''),
      (strs [''t'', ''.'', ''ex'', ''.''], str ''t.ex.''),
      (strs [''m.m'', ''.''], str ''m.m.''),
      (strs [''T'', ''ex''], str ''T_ex''),
      (strs [''fr'', ''o'', ''m''], str ''fr_o_m''),
      (strs [''Bl'', ''a''], str ''Bl_a''),
      (strs [''s'', ''a'', ''s''], str ''s_a_s''),
      (strs [''Bl'', ''.'', ''a'', ''.''], str ''Bl.a.''),
      (strs [''d.v.s''], str ''d.v.s''),
      (strs [''t'', ''.'', ''o'', ''.'', ''m'', ''.''], str ''t.o.m.''),
      (strs [''m'', ''fl''], str ''m_fl''),
      (strs [''D'', ''v'', ''s''], str ''D_v_s''),
      (strs [''f'', ''n''], str ''f_n''),
      (strs [''d'', ''.'', ''v'', ''.'', ''s'', ''.''], str ''d.v.s.''),
      (strs [''bl.a'', ''.''], str ''bl.a.''),
      (strs [''dvs'', ''.''], str ''dvs.''),
      (strs [''T'', ''.'', ''ex'', ''.''], str ''T.ex.''),
      (strs [''p'', ''g'', ''a''], str ''p_g_a''),
      (strs [''Fr'', ''o'', ''m''], str ''Fr_o_m''),
      (strs [''o'', ''s'', ''v''], str ''o_s_v''),
      (strs [''s.k'', ''.''], str ''s.k.''),
      (strs [''bl'', ''.'', ''a'', ''.''], str ''bl.a.''),
      (strs [''t.ex'', ''.''], str ''t.ex.''),
      (strs [''m'', ''a'', ''o''], str ''m_a_o''),
      (strs [''fr'', ''.'', ''o'', ''.'', ''m'', ''.''], str ''fr.o.m.''),
      (strs [''t'', ''ex''], str ''t_ex''),
      (strs [''t'', ''.'', ''h'', ''.''], str ''t.h.''),
      (strs [''m'', ''.'', ''fl'', ''.''], str ''m.fl.''),
      ([Some (str ''f''), Some [246]], str ''f_'' @ [246])]"

text \<open>
  The tables of the examples: the one entry \<^verbatim>\<open>("Dr", ".")\<close> of the specification, and a
  table whose key starts with a punctuation mark.
\<close>

definition dr_table :: table where
  "dr_table = [([Some (str ''Dr''), Some (str ''.'')], str ''Dr.'')]"

definition excl_table :: table where
  "excl_table = [([Some (str ''!''), Some (str ''?'')], str ''!?'')]"

text \<open>
  The text of C9: \<^verbatim>\<open>Motet ar 2024-01-15 kl. 10:30.\<close> with the Swedish letters of the
  original, the code points 246 (o with diaeresis) and 228 (a with diaeresis).
\<close>

definition motet :: ustr where
  "motet = str ''M'' @ [246] @ str ''tet '' @ [228] @ str ''r 2024-01-15 kl. 10:30.''"

section \<open>The statements in the words of the specification\<close>

text \<open>
  The sentences a stream yields when it ends normally, from a given accumulator.
\<close>

definition flush :: "ustr list list \<times> ustr list \<Rightarrow> ustr list list" where
  "flush r = (case r of (out, sentence) \<Rightarrow> out @ (if sentence \<noteq> [] then [sentence] else []))"

text \<open>
  The heuristic in the words of the specification: both items are tokens, the final
  character of the first is one of \<^verbatim>\<open>. : ! ?\<close> and the first character of the next is
  an uppercase letter. On tokens that are not empty strings the test of the source
  computes it, together with the flag.
\<close>

definition sentence_break :: "ucd \<Rightarrow> item \<Rightarrow> item \<Rightarrow> bool" where
  "sentence_break U token next_token =
     (case (token, next_token) of
        (Some t, Some n) \<Rightarrow> t \<noteq> [] \<and> last t \<in> {46, 58, 33, 63} \<and> n \<noteq> [] \<and> isupper U (hd n)
      | _ \<Rightarrow> False)"

text \<open>
  The stream with a marker inserted after every token that passes the heuristic with
  the item after it, and nothing else changed.
\<close>

fun with_breaks :: "ucd \<Rightarrow> item list \<Rightarrow> item list" where
  "with_breaks U [] = []"
| "with_breaks U [x] = [x]"
| "with_breaks U (x # y # zs) =
     x # (if sentence_break U x y then [None] else []) @ with_breaks U (y # zs)"

section \<open>Properties of \<^verbatim>\<open>PeekableIterator\<close>\<close>

text \<open>
  The three operations of the object compute the three operations on the list of the
  items not yet consumed, and change that list as they do: it is this list the model of
  the Resolver works on.
\<close>

lemma fill_cache_remaining:
  "fill_cache n it = (r, it') \<Longrightarrow>
     remaining it' = remaining it \<and>
     (if length (remaining it) < n then r = Some StopIteration
      else r = None \<and> n \<le> length (cache it'))"
proof (induction n it arbitrary: r it' rule: fill_cache.induct)
  case (1 n it)
  show ?case
  proof (cases "length (cache it) < n")
    case False
    with "1.prems" show ?thesis
      by (auto simp: fill_cache.simps [of n it] remaining_def)
  next
    case True
    show ?thesis
    proof (cases "iterable it")
      case Nil
      with True "1.prems" show ?thesis
        by (auto simp: fill_cache.simps [of n it] remaining_def)
    next
      case (Cons x xs)
      let ?it = "it\<lparr>iterable := xs, cache := cache it @ [x]\<rparr>"
      from True Cons "1.prems" have "fill_cache n ?it = (r, it')"
        by (simp add: fill_cache.simps [of n it])
      from "1.IH" [OF True Cons this] Cons show ?thesis
        by (simp add: remaining_def)
    qed
  qed
qed

lemma peek_items_remaining:
  "peek_items n it = (r, it') \<Longrightarrow> r = peek n (remaining it) \<and> remaining it' = remaining it"
proof -
  assume a: "peek_items n it = (r, it')"
  obtain e it1 where f: "fill_cache n it = (e, it1)" by (cases "fill_cache n it")
  note fr = fill_cache_remaining [OF f]
  show ?thesis
  proof (cases "length (remaining it) < n")
    case True
    with fr a f show ?thesis by (auto simp: peek_items_def peek_def)
  next
    case False
    with fr have e: "e = None" and le: "n \<le> length (cache it1)"
      and r: "remaining it1 = remaining it" by auto
    from le have "take n (cache it1) = take n (remaining it1)" by (simp add: remaining_def)
    with a f e r False show ?thesis by (auto simp: peek_items_def peek_def)
  qed
qed

lemma peek_item_remaining:
  "peek_item it = (r, it') \<Longrightarrow> r = peek1 (remaining it) \<and> remaining it' = remaining it"
proof -
  assume a: "peek_item it = (r, it')"
  obtain e it1 where f: "fill_cache 1 it = (e, it1)" by (cases "fill_cache 1 it")
  note fr = fill_cache_remaining [OF f]
  show ?thesis
  proof (cases "remaining it")
    case Nil
    with fr a f show ?thesis by (auto simp: peek_item_def peek1_def)
  next
    case (Cons x xs)
    with fr have e: "e = None" and le: "1 \<le> length (cache it1)"
      and r: "remaining it1 = x # xs" by auto
    from le r have "hd (cache it1) = x" by (cases "cache it1") (auto simp: remaining_def)
    with a f e r Cons show ?thesis by (auto simp: peek_item_def peek1_def)
  qed
qed

lemma next_item_remaining:
  "next_item it = (r, it') \<Longrightarrow>
     (case advance (remaining it) of
        Inl e \<Rightarrow> r = Inl e
      | Inr (x, xs) \<Rightarrow> r = Inr x \<and> remaining it' = xs)"
proof -
  assume a: "next_item it = (r, it')"
  obtain e it1 where f: "fill_cache 1 it = (e, it1)" by (cases "fill_cache 1 it")
  note fr = fill_cache_remaining [OF f]
  show ?thesis
  proof (cases "remaining it")
    case Nil
    with fr a f show ?thesis by (auto simp: next_item_def)
  next
    case (Cons x xs)
    with fr have e: "e = None" and le: "1 \<le> length (cache it1)"
      and r: "remaining it1 = x # xs" by auto
    from le r obtain cs where "cache it1 = x # cs" "cs @ iterable it1 = xs"
      by (cases "cache it1") (auto simp: remaining_def)
    with a f e Cons show ?thesis by (auto simp: next_item_def remaining_def)
  qed
qed

section \<open>Properties of the Lexer\<close>

lemma match_at_None_space: "match_at U (c # r) = None \<Longrightarrow> isspace U c"
  by (auto simp: match_at_def match_single_def split: option.splits if_splits)

text \<open>
  The matches of a scan that starts at \<open>pos\<close> lie between \<open>pos\<close> and the end of the text,
  none is empty, each ends before the next one starts, and each character that is not
  whitespace lies in one of them.
\<close>

lemma finditer_loop_bounds:
  "m \<in> set (finditer_loop U pos s) \<Longrightarrow>
     pos \<le> start m \<and> start m < stop m \<and> stop m \<le> pos + length s"
proof (induction U pos s rule: finditer_loop.induct)
  case (1 U pos)
  then show ?case by simp
next
  case (2 U pos c r)
  show ?case
  proof (cases "match_at U (c # r)")
    case None
    with "2.prems" have "m \<in> set (finditer_loop U (pos + 1) r)" by simp
    from "2.IH"(1) [OF None this] show ?thesis by simp
  next
    case (Some x)
    obtain k n where x: "x = (k, n)" by (cases x)
    with Some have "match_at U (c # r) = Some (k, n)" by simp
    then have b: "0 < n \<and> n \<le> length (c # r)" by (rule match_at_bounds)
    from "2.prems" Some x
    have "m = \<lparr>start = pos, stop = pos + n, alt = k\<rparr> \<or>
        m \<in> set (finditer_loop U (pos + n) (drop n (c # r)))"
      by simp
    then show ?thesis
    proof
      assume "m = \<lparr>start = pos, stop = pos + n, alt = k\<rparr>"
      with b show ?thesis by simp
    next
      assume "m \<in> set (finditer_loop U (pos + n) (drop n (c # r)))"
      from "2.IH"(2) [OF Some x [symmetric] this] b show ?thesis by auto
    qed
  qed
qed

lemma finditer_loop_sorted:
  "sorted_wrt (\<lambda>a b. stop a \<le> start b) (finditer_loop U pos s)"
proof (induction U pos s rule: finditer_loop.induct)
  case (1 U pos)
  show ?case by simp
next
  case (2 U pos c r)
  show ?case
  proof (cases "match_at U (c # r)")
    case None
    with "2.IH"(1) show ?thesis by simp
  next
    case (Some x)
    obtain k n where x: "x = (k, n)" by (cases x)
    have "\<forall>m \<in> set (finditer_loop U (pos + n) (drop n (c # r))). pos + n \<le> start m"
      using finditer_loop_bounds by blast
    with "2.IH"(2) [OF Some x [symmetric]] Some x show ?thesis by simp
  qed
qed

lemma finditer_loop_covers:
  "p < length s \<Longrightarrow> \<not> isspace U (s ! p) \<Longrightarrow>
     \<exists>m \<in> set (finditer_loop U pos s). start m \<le> pos + p \<and> pos + p < stop m"
proof (induction U pos s arbitrary: p rule: finditer_loop.induct)
  case (1 U pos)
  then show ?case by simp
next
  case (2 U pos c r)
  show ?case
  proof (cases "match_at U (c # r)")
    case None
    then have sp: "isspace U c" by (rule match_at_None_space)
    with "2.prems" obtain q where q: "p = Suc q" by (cases p) auto
    with "2.prems" have "q < length r" "\<not> isspace U (r ! q)" by simp_all
    from "2.IH"(1) [OF None this] q None show ?thesis by simp
  next
    case (Some x)
    obtain k n where x: "x = (k, n)" by (cases x)
    with Some have "match_at U (c # r) = Some (k, n)" by simp
    then have b: "0 < n \<and> n \<le> length (c # r)" by (rule match_at_bounds)
    show ?thesis
    proof (cases "p < n")
      case True
      with Some x show ?thesis by simp
    next
      case False
      then have pn: "n \<le> p" by simp
      with "2.prems" b have "p - n < length (drop n (c # r))"
        "\<not> isspace U (drop n (c # r) ! (p - n))"
        by simp_all
      from "2.IH"(2) [OF Some x [symmetric] this]
      obtain m where "m \<in> set (finditer_loop U (pos + n) (drop n (c # r)))"
        "start m \<le> pos + n + (p - n)" "pos + n + (p - n) < stop m"
        by auto
      with pn Some x show ?thesis by auto
    qed
  qed
qed

text \<open>
  The text of a paragraph break is made of newlines and whitespace.
\<close>

lemma space_nl_chars:
  "space_nl U s = Some n \<Longrightarrow> p < n \<Longrightarrow> isspace U (s ! p) \<or> s ! p = 10"
proof (induction s arbitrary: n p)
  case Nil
  then show ?case by simp
next
  case (Cons c r)
  show ?case
  proof (cases "isspace U c \<and> space_nl U r \<noteq> None")
    case True
    then obtain k where k: "space_nl U r = Some k" by auto
    with True Cons.prems have n: "n = 1 + k" by simp
    show ?thesis
    proof (cases p)
      case 0
      with True show ?thesis by simp
    next
      case (Suc q)
      with n Cons.prems have "q < k" by simp
      from Cons.IH [OF k this] Suc show ?thesis by simp
    qed
  next
    case False
    with Cons.prems have "c = 10 \<and> n = 1"
      by (auto split: if_splits option.splits)
    with Cons.prems show ?thesis by simp
  qed
qed

lemma space_nl_plus_chars:
  "p < space_nl_plus U s \<Longrightarrow> isspace U (s ! p) \<or> s ! p = 10"
proof (induction U s arbitrary: p rule: space_nl_plus.induct)
  case (1 U s)
  show ?case
  proof (cases "space_nl U s")
    case None
    with "1.prems" show ?thesis by (simp add: space_nl_plus.simps [of U s])
  next
    case (Some n)
    then have b: "0 < n \<and> n \<le> length s" by (rule space_nl_bounds)
    show ?thesis
    proof (cases "p < n")
      case True
      with Some show ?thesis by (rule space_nl_chars)
    next
      case False
      with "1.prems" Some have "p - n < space_nl_plus U (drop n s)"
        by (simp add: space_nl_plus.simps [of U s])
      from "1.IH" [OF Some this] False b show ?thesis by simp
    qed
  qed
qed

lemma match_para_chars:
  assumes "match_para U s = Some n" "p < n"
  shows "isspace U (s ! p) \<or> s ! p = 10"
proof (cases s)
  case Nil
  with assms show ?thesis by (simp add: match_para_def)
next
  case (Cons c r)
  with assms(1) obtain k where c: "c = 10" and k: "space_nl U r = Some k"
    and n: "n = 1 + k + space_nl_plus U (drop k r)"
    by (auto simp: match_para_def split: if_splits option.splits)
  from k have b: "0 < k \<and> k \<le> length r" by (rule space_nl_bounds)
  show ?thesis
  proof (cases p)
    case 0
    with Cons c show ?thesis by simp
  next
    case (Suc q)
    show ?thesis
    proof (cases "q < k")
      case True
      with k have "isspace U (r ! q) \<or> r ! q = 10" by (rule space_nl_chars)
      with Cons Suc show ?thesis by simp
    next
      case False
      with assms(2) n Suc have "q - k < space_nl_plus U (drop k r)" by simp
      then have "isspace U (drop k r ! (q - k)) \<or> drop k r ! (q - k) = 10"
        by (rule space_nl_plus_chars)
      with False b Cons Suc show ?thesis by simp
    qed
  qed
qed

lemma match_at_Para: "match_at U s = Some (Para, n) \<Longrightarrow> match_para U s = Some n"
  by (auto simp: match_at_def split: option.splits)

lemma finditer_loop_para:
  "m \<in> set (finditer_loop U pos s) \<Longrightarrow> alt m = Para \<Longrightarrow> start m \<le> p \<Longrightarrow> p < stop m \<Longrightarrow>
     isspace U (s ! (p - pos)) \<or> s ! (p - pos) = 10"
proof (induction U pos s rule: finditer_loop.induct)
  case (1 U pos)
  then show ?case by simp
next
  case (2 U pos c r)
  show ?case
  proof (cases "match_at U (c # r)")
    case None
    with "2.prems" have m: "m \<in> set (finditer_loop U (pos + 1) r)" by simp
    from finditer_loop_bounds [OF m] "2.prems" have "pos + 1 \<le> p" by simp
    then have "p - pos = Suc (p - (pos + 1))" by arith
    then have "(c # r) ! (p - pos) = r ! (p - (pos + 1))" by simp
    with "2.IH"(1) [OF None m "2.prems"(2,3,4)] show ?thesis by simp
  next
    case (Some x)
    obtain k n where x: "x = (k, n)" by (cases x)
    with Some have ma: "match_at U (c # r) = Some (k, n)" by simp
    then have b: "0 < n \<and> n \<le> length (c # r)" by (rule match_at_bounds)
    from "2.prems"(1) Some x
    have "m = \<lparr>start = pos, stop = pos + n, alt = k\<rparr> \<or>
        m \<in> set (finditer_loop U (pos + n) (drop n (c # r)))"
      by simp
    then show ?thesis
    proof
      assume m: "m = \<lparr>start = pos, stop = pos + n, alt = k\<rparr>"
      with "2.prems" have "k = Para" "p - pos < n" by auto
      with ma have "match_para U (c # r) = Some n" by (simp add: match_at_Para)
      then show ?thesis using \<open>p - pos < n\<close> by (rule match_para_chars)
    next
      assume m: "m \<in> set (finditer_loop U (pos + n) (drop n (c # r)))"
      from finditer_loop_bounds [OF m] "2.prems" have le: "pos + n \<le> p" by simp
      from le have eq: "n + (p - (pos + n)) = p - pos" by arith
      from b have "drop n (c # r) ! (p - (pos + n)) = (c # r) ! (n + (p - (pos + n)))"
        by (intro nth_drop) simp
      with eq have "drop n (c # r) ! (p - (pos + n)) = (c # r) ! (p - pos)" by simp
      with "2.IH"(2) [OF Some x [symmetric] m "2.prems"(2,3,4)] show ?thesis by simp
    qed
  qed
qed

text \<open>
  C6. For every text, every match of the Lexer is a non-empty piece of the text, the
  matches come in the order of the text and do not overlap, and every character that is
  not whitespace lies in exactly one of them: what lies between two matches is
  whitespace. The items the Lexer yields are these matches in their order: a token is
  the text between the start and the end of its match, and a marker stands for a match
  whose text is made of newlines and whitespace. So no character but whitespace and the
  newlines of paragraph breaks is dropped, and none is yielded twice.
\<close>

theorem lexer_coverage:
  "(\<forall>m \<in> set (finditer U data). start m < stop m \<and> stop m \<le> length data) \<and>
   sorted_wrt (\<lambda>a b. stop a \<le> start b) (finditer U data) \<and>
   (\<forall>p < length data. \<not> isspace U (data ! p) \<longrightarrow>
      (\<exists>!i. i < length (finditer U data) \<and>
         start (finditer U data ! i) \<le> p \<and> p < stop (finditer U data ! i))) \<and>
   (\<forall>m \<in> set (finditer U data). alt m = Para \<longrightarrow>
      (\<forall>p. start m \<le> p \<and> p < stop m \<longrightarrow> isspace U (data ! p) \<or> data ! p = 10)) \<and>
   tokenize U data =
     map (\<lambda>m. if alt m = Para then None
              else Some (take (stop m - start m) (drop (start m) data)))
       (finditer U data)"
proof (intro conjI ballI allI impI)
  fix m
  assume m: "m \<in> set (finditer U data)"
  then have b: "start m < stop m \<and> stop m \<le> length data"
    using finditer_loop_bounds [of m U 0 data] by (simp add: finditer_def)
  then show "start m < stop m" "stop m \<le> length data" by simp_all
next
  show s: "sorted_wrt (\<lambda>a b. stop a \<le> start b) (finditer U data)"
    by (simp add: finditer_def finditer_loop_sorted)
next
  fix p
  assume p: "p < length data" "\<not> isspace U (data ! p)"
  let ?ms = "finditer U data"
  have s: "sorted_wrt (\<lambda>a b. stop a \<le> start b) ?ms"
    by (simp add: finditer_def finditer_loop_sorted)
  from finditer_loop_covers [OF p, of 0]
  obtain m where m: "m \<in> set ?ms" "start m \<le> p" "p < stop m"
    by (auto simp: finditer_def)
  then obtain i where i: "i < length ?ms" "?ms ! i = m" by (auto simp: in_set_conv_nth)
  show "\<exists>!i. i < length ?ms \<and> start (?ms ! i) \<le> p \<and> p < stop (?ms ! i)"
  proof (rule ex1I [of _ i])
    show "i < length ?ms \<and> start (?ms ! i) \<le> p \<and> p < stop (?ms ! i)" using i m by simp
  next
    fix j
    assume j: "j < length ?ms \<and> start (?ms ! j) \<le> p \<and> p < stop (?ms ! j)"
    show "j = i"
    proof (rule ccontr)
      assume "j \<noteq> i"
      then consider "j < i" | "i < j" by linarith
      then show False
      proof cases
        case 1
        with s i(1) have "stop (?ms ! j) \<le> start (?ms ! i)"
          by (simp add: sorted_wrt_iff_nth_less)
        with j i m show False by simp
      next
        case 2
        with s j have "stop (?ms ! i) \<le> start (?ms ! j)"
          by (simp add: sorted_wrt_iff_nth_less)
        with j i m show False by simp
      qed
    qed
  qed
next
  fix m p
  assume "m \<in> set (finditer U data)" "alt m = Para" "start m \<le> p \<and> p < stop m"
  then show "isspace U (data ! p) \<or> data ! p = 10"
    using finditer_loop_para [of m U 0 data p] by (simp add: finditer_def)
next
  show "tokenize U data =
     map (\<lambda>m. if alt m = Para then None
              else Some (take (stop m - start m) (drop (start m) data)))
       (finditer U data)"
    by (simp add: tokenize_def token_of_def group0_def fun_eq_iff)
qed

text \<open>
  An instance: the text \<^verbatim>\<open>Dr.\<close>, a paragraph break of a newline, a space and a newline,
  then \<^verbatim>\<open>!! x\<close>.
\<close>

theorem lexer_coverage_witness:
  "\<lparr>start = 3, stop = 6, alt = Para\<rparr> \<in> set (finditer latin1 (str ''Dr.'' @ [10, 32, 10] @ str ''!! x'')) \<and>
   (3::nat) < 6 \<and> 6 \<le> length (str ''Dr.'' @ [10, 32, 10] @ str ''!! x'') \<and>
   (isspace latin1 ((str ''Dr.'' @ [10, 32, 10] @ str ''!! x'') ! 4) \<or>
      (str ''Dr.'' @ [10, 32, 10] @ str ''!! x'') ! 4 = 10) \<and>
   (\<exists>!i. i < length (finditer latin1 (str ''Dr.'' @ [10, 32, 10] @ str ''!! x'')) \<and>
      start (finditer latin1 (str ''Dr.'' @ [10, 32, 10] @ str ''!! x'') ! i) \<le> 7 \<and>
      7 < stop (finditer latin1 (str ''Dr.'' @ [10, 32, 10] @ str ''!! x'') ! i)) \<and>
   tokenize latin1 (str ''Dr.'' @ [10, 32, 10] @ str ''!! x'') =
     [Some (str ''Dr''), Some (str ''.''), None, Some (str ''!!''), Some (str ''x'')]"
proof -
  let ?data = "str ''Dr.'' @ [10, 32, 10] @ str ''!! x''"
  let ?m = "\<lparr>start = 3, stop = 6, alt = Para\<rparr>"
  have ms: "finditer latin1 ?data =
      [\<lparr>start = 0, stop = 2, alt = Word\<rparr>, \<lparr>start = 2, stop = 3, alt = Single\<rparr>, ?m,
       \<lparr>start = 6, stop = 8, alt = Repeat\<rparr>, \<lparr>start = 9, stop = 10, alt = Word\<rparr>]"
    by code_simp
  have m: "?m \<in> set (finditer latin1 ?data)" using ms by simp
  have p: "7 < length ?data" "\<not> isspace latin1 (?data ! 7)" by code_simp+
  note t = lexer_coverage [of latin1 ?data]
  from t m have a: "start ?m < stop ?m \<and> stop ?m \<le> length ?data" by blast
  from t m have "alt ?m = Para \<longrightarrow>
      (\<forall>p. start ?m \<le> p \<and> p < stop ?m \<longrightarrow> isspace latin1 (?data ! p) \<or> ?data ! p = 10)"
    by blast
  then have b: "isspace latin1 (?data ! 4) \<or> ?data ! 4 = 10" by simp
  from t p have c: "\<exists>!i. i < length (finditer latin1 ?data) \<and>
      start (finditer latin1 ?data ! i) \<le> 7 \<and> 7 < stop (finditer latin1 ?data ! i)"
    by blast
  from t have "tokenize latin1 ?data =
     map (\<lambda>m. if alt m = Para then None
              else Some (take (stop m - start m) (drop (start m) ?data)))
       (finditer latin1 ?data)"
    by blast
  with ms have d: "tokenize latin1 ?data =
      [Some (str ''Dr''), Some (str ''.''), None, Some (str ''!!''), Some (str ''x'')]"
    by (simp add: str_def)
  from a b c d m show ?thesis by simp
qed

text \<open>The Lexer yields no empty string.\<close>

lemma tokenize_nonempty: "t \<in> set (tokenize U data) \<Longrightarrow> t \<noteq> Some []"
proof -
  assume "t \<in> set (tokenize U data)"
  then obtain m where m: "m \<in> set (finditer U data)" "t = token_of data m"
    by (auto simp: tokenize_def)
  from m(1) have "start m < stop m \<and> stop m \<le> length data"
    using finditer_loop_bounds [of m U 0 data] by (simp add: finditer_def)
  then have "0 < length (group0 data m)" by (auto simp: group0_def)
  with m(2) show ?thesis by (auto simp: token_of_def)
qed

text \<open>
  As the claim states it, C9 fails in the rule it names: the alternatives are tried in
  the order they are written, a digit is a word character, and so it is the first
  alternative, the word-like one, that matches the date and the time; the numeric
  alternative is not tried at these positions.
\<close>

theorem numeric_rule_counterexample:
  "match_at latin1 (str ''2024-01-15 kl. 10:30.'') = Some (Word, 10) \<and>
   match_at latin1 (str ''10:30.'') = Some (Word, 5) \<and>
   finditer latin1 motet ! 2 = \<lparr>start = 9, stop = 19, alt = Word\<rparr> \<and>
   finditer latin1 motet ! 5 = \<lparr>start = 24, stop = 29, alt = Word\<rparr> \<and>
   Numeric \<notin> set (map alt (finditer latin1 motet))"
  by code_simp

text \<open>
  C9, amended. The Lexer yields the date and the time as one token each, through its
  word-like alternative, and \<^verbatim>\<open>kl\<close>, the period after it and the final period as tokens
  of their own. (The numeric alternative, tried on its own at the two positions, would
  match the same two pieces of the text.)
\<close>

theorem tokenize_date_and_time:
  "tokenize latin1 motet =
     [Some (str ''M'' @ [246] @ str ''tet''), Some ([228] @ str ''r''), Some (str ''2024-01-15''),
      Some (str ''kl''), Some (str ''.''), Some (str ''10:30''), Some (str ''.'')] \<and>
   map alt (finditer latin1 motet) = [Word, Word, Word, Word, Single, Word, Single] \<and>
   match_num latin1 (str ''2024-01-15 kl. 10:30.'') = Some 10 \<and>
   match_num latin1 (str ''10:30.'') = Some 5"
  by code_simp

section \<open>Properties of the Grouper\<close>

lemma group_sentences_flush:
  "group_sentences (tokens, Returned) = (flush (group_loop [] tokens), Returned)"
  by (simp add: group_sentences_def group_sentences_frame_def generator_def flush_def
      split: prod.splits)

lemma flush_nonempty: "s \<in> set (flush (group_loop acc tokens)) \<Longrightarrow> s \<noteq> []"
proof (induction tokens arbitrary: acc)
  case Nil
  then show ?case by (auto simp: flush_def split: if_splits)
next
  case (Cons x tokens)
  show ?case
  proof (cases x)
    case None
    with Cons.prems have "s = acc \<and> acc \<noteq> [] \<or> s \<in> set (flush (group_loop [] tokens))"
      by (auto simp: flush_def split: prod.splits if_splits)
    then show ?thesis using Cons.IH by blast
  next
    case (Some t)
    with Cons.prems have "s \<in> set (flush (group_loop (acc @ [t]) tokens))" by simp
    then show ?thesis by (rule Cons.IH)
  qed
qed

lemma flush_tokens:
  "flush (group_loop acc (map Some toks @ tokens)) = flush (group_loop (acc @ toks) tokens)"
  by (induction toks arbitrary: acc) simp_all

lemma flush_marker:
  "flush (group_loop acc (None # tokens)) =
     (if acc \<noteq> [] then [acc] else []) @ flush (group_loop [] tokens)"
  by (simp add: flush_def split: prod.splits)

lemma flush_Nil: "flush (group_loop acc []) = (if acc \<noteq> [] then [acc] else [])"
  by (simp add: flush_def)

lemma flush_split:
  "flush (group_loop acc (xs @ None # ys)) =
     flush (group_loop acc xs) @ flush (group_loop [] ys)"
proof (induction xs arbitrary: acc)
  case Nil
  show ?case by (simp add: flush_marker flush_Nil del: group_loop.simps)
next
  case (Cons x xs)
  show ?case
  proof (cases x)
    case None
    then show ?thesis using Cons.IH [of "[]"]
      by (simp add: flush_marker del: group_loop.simps)
  next
    case (Some t)
    then show ?thesis using Cons.IH [of "acc @ [t]"] by simp
  qed
qed

text \<open>
  C7. Every sentence the Grouper yields is non-empty. A marker splits the stream: the
  sentences of a stream are those of the part before the marker followed by those of the
  part after it, so a marker at the start of the stream and the second of two
  consecutive markers yield nothing. A run of tokens that a marker or the end of the
  stream closes yields exactly that run as one sentence when it is non-empty, and
  nothing when it is empty.
\<close>

theorem group_sentences_nonempty:
  "(\<forall>s \<in> set (fst (group_sentences (tokens, Returned))). s \<noteq> []) \<and>
   snd (group_sentences (tokens, Returned)) = Returned \<and>
   fst (group_sentences (xs @ None # ys, Returned)) =
     fst (group_sentences (xs, Returned)) @ fst (group_sentences (ys, Returned)) \<and>
   fst (group_sentences (None # tokens, Returned)) = fst (group_sentences (tokens, Returned)) \<and>
   fst (group_sentences (xs @ None # None # ys, Returned)) =
     fst (group_sentences (xs @ None # ys, Returned)) \<and>
   fst (group_sentences (map Some toks @ None # tokens, Returned)) =
     (if toks \<noteq> [] then [toks] else []) @ fst (group_sentences (tokens, Returned)) \<and>
   fst (group_sentences (map Some toks, Returned)) = (if toks \<noteq> [] then [toks] else [])"
proof -
  have a: "\<forall>s \<in> set (fst (group_sentences (tokens, Returned))). s \<noteq> []"
    by (auto simp: group_sentences_flush dest: flush_nonempty)
  have b: "snd (group_sentences (tokens, Returned)) = Returned"
    by (simp add: group_sentences_flush)
  have c: "fst (group_sentences (xs @ None # ys, Returned)) =
     fst (group_sentences (xs, Returned)) @ fst (group_sentences (ys, Returned))"
    by (simp add: group_sentences_flush flush_split)
  have d: "fst (group_sentences (None # tokens, Returned)) =
     fst (group_sentences (tokens, Returned))"
    by (simp add: group_sentences_flush flush_marker flush_Nil del: group_loop.simps)
  have e: "fst (group_sentences (xs @ None # None # ys, Returned)) =
     fst (group_sentences (xs @ None # ys, Returned))"
    by (simp add: group_sentences_flush flush_split flush_marker del: group_loop.simps)
  have f: "flush (group_loop [] (map Some toks @ None # tokens)) =
     (if toks \<noteq> [] then [toks] else []) @ flush (group_loop [] tokens)"
    using flush_tokens [of "[]" toks "None # tokens"]
    by (simp add: flush_marker del: group_loop.simps)
  have g: "flush (group_loop [] (map Some toks)) = (if toks \<noteq> [] then [toks] else [])"
    using flush_tokens [of "[]" toks "[]"] by (simp add: flush_Nil del: group_loop.simps)
  show ?thesis using a b c d e f g by (simp add: group_sentences_flush del: group_loop.simps)
qed

theorem group_sentences_nonempty_witness:
  "[str ''a'', str ''b''] \<in> set (fst (group_sentences
      ([None, Some (str ''a''), Some (str ''b''), None, None, Some (str ''c'')], Returned))) \<and>
   [str ''a'', str ''b''] \<noteq> []"
proof -
  have "[str ''a'', str ''b''] \<in> set (fst (group_sentences
      ([None, Some (str ''a''), Some (str ''b''), None, None, Some (str ''c'')], Returned)))"
    by code_simp
  with group_sentences_nonempty
    [of "[None, Some (str ''a''), Some (str ''b''), None, None, Some (str ''c'')]"]
  show ?thesis by blast
qed

section \<open>Properties of the Resolver\<close>

subsection \<open>The sentence boundary test\<close>

lemma boundary_sentence_break:
  "token \<noteq> Some [] \<Longrightarrow> next_token \<noteq> Some [] \<Longrightarrow>
     boundary U was_abbrev token next_token =
       Inr (\<not> was_abbrev \<and> sentence_break U token next_token)"
  by (cases token; cases next_token) (auto simp: boundary_def sentence_break_def)

lemma body_no_prefix:
  "[token] \<notin> abbrev_prefixes abbrevs \<Longrightarrow> token \<noteq> Some [] \<Longrightarrow> next_token \<noteq> Some [] \<Longrightarrow>
     body U abbrevs was_abbrev token (next_token # tokens) =
       (token # (if \<not> was_abbrev \<and> sentence_break U token next_token then [None] else []),
        Continue False (next_token # tokens))"
  by (simp add: body_def peek1_def boundary_sentence_break)

lemma body_no_prefix_last:
  "[token] \<notin> abbrev_prefixes abbrevs \<Longrightarrow>
     body U abbrevs was_abbrev token [] = ([token], Raise StopIteration)"
  by (simp add: body_def peek1_def)

subsection \<open>The empty table\<close>

lemma abbrev_prefixes_empty: "abbrev_prefixes [] = {}"
  by (simp add: abbrev_prefixes_def)

lemma loop_empty_table:
  "\<forall>t \<in> set tokens. t \<noteq> Some [] \<Longrightarrow>
     loop U [] False tokens =
       (with_breaks U tokens, if tokens = [] then Returned else Raised StopIteration)"
proof (induction U tokens rule: with_breaks.induct)
  case (1 U)
  show ?case by (simp add: loop.simps)
next
  case (2 U x)
  show ?case by (simp add: loop.simps body_no_prefix_last abbrev_prefixes_empty)
next
  case (3 U x y zs)
  from "3.prems" have ne: "x \<noteq> Some []" "y \<noteq> Some []" by auto
  from "3.prems" have "\<forall>t \<in> set (y # zs). t \<noteq> Some []" by simp
  then have ih: "loop U [] False (y # zs) = (with_breaks U (y # zs), Raised StopIteration)"
    using "3.IH" by simp
  have b: "body U [] False x (y # zs) =
      (x # (if sentence_break U x y then [None] else []), Continue False (y # zs))"
    using body_no_prefix [of x "[]" y U False zs] ne by (simp add: abbrev_prefixes_empty)
  show ?case
    by (simp add: loop.simps(2) [of U "[]" False x "y # zs"] b ih)
qed

lemma subseq_with_breaks: "subseq tokens (with_breaks U tokens)"
proof (induction U tokens rule: with_breaks.induct)
  case (1 U)
  show ?case by simp
next
  case (2 U x)
  show ?case by simp
next
  case (3 U x y zs)
  then have "subseq (y # zs) ((if sentence_break U x y then [None] else []) @ with_breaks U (y # zs))"
    by (simp add: list_emb_append2 del: with_breaks.simps)
  then show ?case by (simp del: with_breaks.simps(3) add: with_breaks.simps(3) [of U x y zs])
qed

lemma filter_with_breaks:
  "filter (\<lambda>x. x \<noteq> None) (with_breaks U tokens) = filter (\<lambda>x. x \<noteq> None) tokens"
  by (induction U tokens rule: with_breaks.induct) auto

text \<open>
  C8. With the empty table, on a stream whose tokens are not empty strings (the Lexer
  yields no empty string), the Resolver yields the stream with a marker inserted after
  every token that passes the heuristic: every item of the stream is yielded, unchanged
  and in order, the added items are markers only, and the tokens are the same.
\<close>

theorem join_abbrevs_empty_table:
  assumes "\<forall>t \<in> set tokens. t \<noteq> Some []"
  shows "fst (join_abbrevs U [] tokens) = with_breaks U tokens \<and>
         subseq tokens (fst (join_abbrevs U [] tokens)) \<and>
         filter (\<lambda>x. x \<noteq> None) (fst (join_abbrevs U [] tokens)) =
           filter (\<lambda>x. x \<noteq> None) tokens"
proof -
  have "fst (join_abbrevs U [] tokens) = with_breaks U tokens"
    using loop_empty_table [OF assms, of U]
    by (simp add: join_abbrevs_def join_abbrevs_frame_def generator_def)
  then show ?thesis
    using subseq_with_breaks [of tokens U] filter_with_breaks [of U tokens] by simp
qed

theorem join_abbrevs_empty_table_witness:
  "fst (join_abbrevs latin1 []
      [Some (str ''Hej''), Some (str ''.''), None, Some (str ''Hej''), Some (str ''.''),
       Some (str ''Hej'')]) =
     [Some (str ''Hej''), Some (str ''.''), None, Some (str ''Hej''), Some (str ''.''), None,
      Some (str ''Hej'')]"
proof -
  let ?ts = "[Some (str ''Hej''), Some (str ''.''), None, Some (str ''Hej''), Some (str ''.''),
       Some (str ''Hej'')]"
  have h: "\<forall>t \<in> set ?ts. t \<noteq> Some []" by (simp add: str_def)
  have w: "with_breaks latin1 ?ts =
     [Some (str ''Hej''), Some (str ''.''), None, Some (str ''Hej''), Some (str ''.''), None,
      Some (str ''Hej'')]"
    by code_simp
  from join_abbrevs_empty_table [OF h, of latin1] w show ?thesis by simp
qed

subsection \<open>The lookahead scan\<close>

lemma key_in_table: "map_of A k = Some v \<Longrightarrow> (k, v) \<in> set A"
  by (rule map_of_SomeD)

lemma key_length_le_max:
  assumes "map_of A k = Some v"
  shows "length k \<le> max_abbrev_length A"
proof -
  from assms have in_set: "(k, v) \<in> set A" by (rule key_in_table)
  then have ne: "A \<noteq> []" by auto
  from in_set have "length k \<in> set (map (\<lambda>(abbrev, v). length abbrev) A)" by force
  then have "length k \<le> Max (set (map (\<lambda>(abbrev, v). length abbrev) A))"
    by (intro Max_ge) auto
  with ne show ?thesis by (simp add: max_abbrev_length_def)
qed

lemma take_in_abbrev_prefixes:
  assumes "(k, v) \<in> set A" "0 < n" "n \<le> length k"
  shows "take n k \<in> abbrev_prefixes A"
proof -
  from assms(2,3) have "n - 1 < length k" "take n k = take ((n - 1) + 1) k" by auto
  then have "take n k \<in> set (map (\<lambda>i. take (i + 1) k) [0..<length k])"
    by (metis (no_types, lifting) add_0 image_eqI list.set_map set_upt atLeastLessThan_iff le0)
  with assms(1) show ?thesis
    unfolding abbrev_prefixes_def by (auto intro!: bexI [of _ "(k, v)"])
qed

lemma peek_Inr: "n \<le> length tokens \<Longrightarrow> peek n tokens = Inr (take n tokens)"
  by (simp add: peek_def)

lemma peek_cases:
  "peek n tokens = Inr ahead \<Longrightarrow> n \<le> length tokens \<and> ahead = take n tokens"
  by (auto simp: peek_def split: if_splits)

text \<open>
  What the scan returns is a key that the stream starts with, of at least two items;
  no shorter candidate from the round \<open>i\<close> on is a key.
\<close>

lemma scan_Some:
  "scan A token tokens i = Some c \<Longrightarrow>
     \<exists>j. i \<le> j \<and> j < max_abbrev_length A \<and> Suc j \<le> length tokens \<and>
       c = token # take (Suc j) tokens \<and> map_of A c \<noteq> None \<and>
       \<not> (token = Some [46] \<and> last (take (Suc j) tokens) = None) \<and>
       (\<forall>j'. i \<le> j' \<and> j' < j \<longrightarrow> map_of A (token # take (Suc j') tokens) = None)"
proof (induction A token tokens i rule: scan.induct)
  case (1 A token tokens i)
  from "1.prems" have lt: "i < max_abbrev_length A"
    by (simp add: scan.simps [of A token tokens i] split: if_splits)
  from "1.prems" lt obtain ahead where pk: "peek (i + 1) tokens = Inr ahead"
    by (auto simp: scan.simps [of A token tokens i] split: sum.splits)
  then have len: "Suc i \<le> length tokens" and ahead: "ahead = take (Suc i) tokens"
    using peek_cases [of "i + 1" tokens ahead] by auto
  let ?cand = "token # ahead"
  from "1.prems" lt pk have pre: "?cand \<in> abbrev_prefixes A"
    by (auto simp: scan.simps [of A token tokens i] Let_def split: if_splits)
  show ?case
  proof (cases "map_of A ?cand")
    case (Some v)
    with "1.prems" lt pk pre
    have "c = ?cand" "\<not> (token = Some [46] \<and> last ahead = None)"
      by (auto simp: scan.simps [of A token tokens i] Let_def split: if_splits)
    with Some lt len ahead show ?thesis by (intro exI [of _ i]) auto
  next
    case None
    with "1.prems" lt pk pre have "scan A token tokens (i + 1) = Some c"
      by (auto simp: scan.simps [of A token tokens i] Let_def split: if_splits)
    then have "\<exists>j. i + 1 \<le> j \<and> j < max_abbrev_length A \<and> Suc j \<le> length tokens \<and>
       c = token # take (Suc j) tokens \<and> map_of A c \<noteq> None \<and>
       \<not> (token = Some [46] \<and> last (take (Suc j) tokens) = None) \<and>
       (\<forall>j'. i + 1 \<le> j' \<and> j' < j \<longrightarrow> map_of A (token # take (Suc j') tokens) = None)"
      using "1.IH" [OF lt pk refl] pre None by simp
    then obtain j where j: "i + 1 \<le> j" "j < max_abbrev_length A" "Suc j \<le> length tokens"
      "c = token # take (Suc j) tokens" "map_of A c \<noteq> None"
      "\<not> (token = Some [46] \<and> last (take (Suc j) tokens) = None)"
      "\<forall>j'. i + 1 \<le> j' \<and> j' < j \<longrightarrow> map_of A (token # take (Suc j') tokens) = None"
      by auto
    have "\<forall>j'. i \<le> j' \<and> j' < j \<longrightarrow> map_of A (token # take (Suc j') tokens) = None"
    proof (intro allI impI)
      fix j'
      assume a: "i \<le> j' \<and> j' < j"
      show "map_of A (token # take (Suc j') tokens) = None"
      proof (cases "j' = i")
        case True
        with None ahead show ?thesis by simp
      next
        case False
        with a j(7) show ?thesis by auto
      qed
    qed
    with j show ?thesis by (intro exI [of _ j]) auto
  qed
qed

text \<open>
  A key that the stream starts with is found when no shorter candidate is a key and
  the final period test does not apply.
\<close>

lemma scan_finds:
  assumes key: "map_of A (token # take (Suc j) tokens) = Some v"
    and len: "Suc j \<le> length tokens"
    and no_final: "\<not> (token = Some [46] \<and> last (take (Suc j) tokens) = None)"
  shows "i \<le> j \<Longrightarrow>
     (\<forall>j'. i \<le> j' \<and> j' < j \<longrightarrow> map_of A (token # take (Suc j') tokens) = None) \<Longrightarrow>
     scan A token tokens i = Some (token # take (Suc j) tokens)"
proof (induction "j - i" arbitrary: i)
  case 0
  then have ij: "i = j" by simp
  let ?k = "token # take (Suc j) tokens"
  from len have lk: "length ?k = j + 2" by simp
  with key_length_le_max [OF key] have lt: "j < max_abbrev_length A" by simp
  have "take (j + 2) ?k \<in> abbrev_prefixes A"
    using take_in_abbrev_prefixes [OF key_in_table [OF key], of "j + 2"] lk by simp
  then have pre: "?k \<in> abbrev_prefixes A" using lk by simp
  have "scan A token tokens j = Some ?k"
    using lt len pre key no_final
    by (simp add: scan.simps [of A token tokens j] peek_Inr)
  with ij show ?case by simp
next
  case (Suc d)
  then have ij: "i < j" by simp
  let ?k = "token # take (Suc j) tokens"
  let ?c = "token # take (Suc i) tokens"
  from len have lk: "length ?k = j + 2" by simp
  with key_length_le_max [OF key] ij have lt: "i < max_abbrev_length A" by simp
  have "take (i + 2) ?k \<in> abbrev_prefixes A"
    using take_in_abbrev_prefixes [OF key_in_table [OF key], of "i + 2"] lk ij by simp
  moreover have "take (i + 2) ?k = ?c" using ij by (simp add: min_def)
  ultimately have pre: "?c \<in> abbrev_prefixes A" by simp
  from Suc.prems(2) ij have none: "map_of A ?c = None" by simp
  have "scan A token tokens (i + 1) = Some ?k"
  proof (rule Suc.hyps(1))
    show "d = j - (i + 1)" using Suc.hyps(2) by simp
    show "i + 1 \<le> j" using ij by simp
    show "\<forall>j'. i + 1 \<le> j' \<and> j' < j \<longrightarrow> map_of A (token # take (Suc j') tokens) = None"
      using Suc.prems(2) by simp
  qed
  then show ?case
    using lt len ij pre none
    by (simp add: scan.simps [of A token tokens i] peek_Inr)
qed

lemma skip_drop: "n \<le> length tokens \<Longrightarrow> skip n tokens = Inr (drop n tokens)"
proof (induction n arbitrary: tokens)
  case 0
  show ?case by simp
next
  case (Suc n)
  then show ?case by (cases tokens) simp_all
qed

lemma prefix_take_Cons:
  assumes "prefix k (token # tokens)" "2 \<le> length k"
  shows "k = token # take (length k - 1) tokens \<and> length k - 1 \<le> length tokens"
proof -
  from assms(1) obtain r where r: "token # tokens = k @ r" by (auto simp: prefix_def)
  from assms(2) obtain x k' where k: "k = x # k'" by (cases k) auto
  with r have "x = token" "tokens = k' @ r" by auto
  with k show ?thesis by simp
qed

text \<open>
  The test for the final period in the scan needs a key whose last item is the marker.
  For a table whose keys are tuples of strings it never applies, whatever the stream.
\<close>

lemma final_period_test_never_applies:
  assumes "\<forall>(k, v) \<in> set (A :: table). None \<notin> set k"
    and "map_of A (token # ahead) \<noteq> None"
    and "ahead \<noteq> []"
  shows "\<not> (token = Some [46] \<and> last ahead = None)"
proof -
  from assms(2) obtain v where "(token # ahead, v) \<in> set A"
    by (auto dest: map_of_SomeD)
  with assms(1) have "None \<notin> set (token # ahead)" by blast
  then have "None \<notin> set ahead" by simp
  moreover from assms(3) have "last ahead \<in> set ahead" by simp
  ultimately have "last ahead \<noteq> None" by metis
  then show ?thesis by simp
qed

subsection \<open>Which key is folded\<close>

text \<open>
  The scan stops at the first candidate that is a key. So when keys of at least two
  items match the stream at the token, the shortest of them is folded (unless the final
  period test applies to it): its replacement is yielded, the items of the key after the
  token are taken off the stream, and the flag is set.
\<close>

lemma scan_first_key_wins:
  assumes key: "map_of A k = Some v"
    and pre: "prefix k (token # tokens)"
    and len: "2 \<le> length k"
    and shortest: "\<forall>k'. map_of A k' \<noteq> None \<and> prefix k' (token # tokens) \<and> 2 \<le> length k'
                     \<longrightarrow> length k \<le> length k'"
    and no_final: "\<not> (token = Some [46] \<and> last k = None)"
  shows "scan A token tokens 0 = Some k \<and>
         body U A w token tokens = ([Some v], Continue True (drop (length k - 1) tokens))"
proof -
  obtain j where j: "length k = j + 2" using len by (metis add.commute le_Suc_ex)
  from prefix_take_Cons [OF pre len] j
  have k: "k = token # take (Suc j) tokens" and lj: "Suc j \<le> length tokens" by simp_all
  have key': "map_of A (token # take (Suc j) tokens) = Some v" using key k by simp
  from lj have "take (Suc j) tokens \<noteq> []" by auto
  then have "last k = last (take (Suc j) tokens)" using k by (metis last_ConsR)
  with no_final have nf: "\<not> (token = Some [46] \<and> last (take (Suc j) tokens) = None)" by simp
  have none: "\<forall>j'. 0 \<le> j' \<and> j' < j \<longrightarrow> map_of A (token # take (Suc j') tokens) = None"
  proof (intro allI impI)
    fix j'
    assume a: "0 \<le> j' \<and> j' < j"
    let ?c = "token # take (Suc j') tokens"
    have "prefix ?c (token # tokens)" by (simp add: take_is_prefix)
    moreover have "length ?c = j' + 2" using a lj by simp
    ultimately have "map_of A ?c \<noteq> None \<longrightarrow> length k \<le> j' + 2"
      using shortest by (metis le_add2)
    with a j show "map_of A ?c = None" by auto
  qed
  have sc: "scan A token tokens 0 = Some k"
    using scan_finds [OF key' lj nf, of 0] none k by simp
  have "take 1 k \<in> abbrev_prefixes A"
    using take_in_abbrev_prefixes [OF key_in_table [OF key], of 1] len by simp
  then have pre1: "[token] \<in> abbrev_prefixes A" using k by simp
  have "length (butlast k) = Suc j" using j by simp
  then have sk: "skip (length (butlast k)) tokens = Inr (drop (Suc j) tokens)"
    using skip_drop [OF lj] by simp
  have "body U A w token tokens = ([Some v], Continue True (drop (Suc j) tokens))"
    using sk by (simp add: body_def pre1 sc key)
  with sc j show ?thesis by simp
qed

text \<open>
  A key that extends another key of at least two items is never folded, whatever the
  stream: the scan does not get beyond the shorter key.
\<close>

lemma longer_key_never_folded:
  assumes k1: "map_of A k1 \<noteq> None" "2 \<le> length k1" and ext: "strict_prefix k1 k2"
  shows "scan A token tokens 0 \<noteq> Some k2"
proof
  assume "scan A token tokens 0 = Some k2"
  from scan_Some [OF this] obtain j where
    j: "Suc j \<le> length tokens" "k2 = token # take (Suc j) tokens"
      "\<forall>j'. 0 \<le> j' \<and> j' < j \<longrightarrow> map_of A (token # take (Suc j') tokens) = None"
    by auto
  from ext have p: "prefix k1 k2" by (simp add: strict_prefix_def)
  from ext have l: "length k1 < length k2" by (rule prefix_length_less)
  from j(1,2) have l2: "length k2 = j + 2" by simp
  obtain i where i: "length k1 = i + 2" using k1(2) by (metis add.commute le_Suc_ex)
  with l l2 have ij: "i < j" by simp
  from p have "k1 = take (length k1) k2" by (metis append_eq_conv_conj prefix_def)
  with i j(2) ij have "k1 = token # take (Suc i) tokens" by (simp add: min_def)
  with j(3) ij have "map_of A k1 = None" by simp
  with k1(1) show False by simp
qed

lemma longer_keys_of_ABBREVS:
  "map_of ABBREVS (strs [''m'', ''m'']) \<noteq> None \<and>
   map_of ABBREVS (strs [''m'', ''m'', ''.'']) \<noteq> None \<and>
   map_of ABBREVS (strs [''m'', ''fl'']) \<noteq> None \<and>
   map_of ABBREVS (strs [''m'', ''fl'', ''.'']) \<noteq> None \<and>
   map_of ABBREVS (strs [''s'', ''.'']) \<noteq> None \<and>
   map_of ABBREVS (strs [''s'', ''.'', ''k'', ''.'']) \<noteq> None \<and>
   map_of ABBREVS (strs [''t'', ''.'', ''ex'']) \<noteq> None \<and>
   map_of ABBREVS (strs [''t'', ''.'', ''ex'', ''.'']) \<noteq> None"
  by code_simp

text \<open>
  C2. The table of the source has the keys \<^verbatim>\<open>('m', 'm')\<close> and \<^verbatim>\<open>('m', 'm', '.')\<close>. On
  the text \<^verbatim>\<open>m m. osv.\<close> both match the stream at its first token; the scan stops at the
  shorter one, its replacement \<^verbatim>\<open>m_m\<close> is yielded and the period stays a token of its
  own: the replacement \<^verbatim>\<open>m_m.\<close> of the longest matching key is not produced.
\<close>

theorem first_key_folded:
  "map_of ABBREVS (strs [''m'', ''m'']) = Some (str ''m_m'') \<and>
   map_of ABBREVS (strs [''m'', ''m'', ''.'']) = Some (str ''m_m.'') \<and>
   tokenize latin1 (str ''m m. osv.'') = strs [''m'', ''m'', ''.'', ''osv'', ''.''] \<and>
   scan ABBREVS (Some (str ''m'')) (strs [''m'', ''.'', ''osv'', ''.'']) 0 =
     Some (strs [''m'', ''m'']) \<and>
   pipeline latin1 ABBREVS (str ''m m. osv.'') =
     ([[str ''m_m'', str ''.'', str ''osv.'']], Returned)"
  by code_simp

text \<open>
  C10. A candidate of the scan is the token with at least one item after it, so what the
  scan returns has at least two items: a key of one token is never folded. A token that
  is such a key, with no key of at least two items matching the stream there, is yielded
  unchanged; the flag and the stream after it stay as they are.
\<close>

theorem single_token_key_never_folded:
  assumes "map_of A [token] = Some v"
  shows "(\<forall>c. scan A token tokens 0 = Some c \<longrightarrow> 2 \<le> length c) \<and>
         ((\<forall>k. map_of A k \<noteq> None \<and> 2 \<le> length k \<longrightarrow> \<not> prefix k (token # tokens)) \<longrightarrow>
            body U A w token tokens = ([token], Continue w tokens) \<and>
            loop U A w (token # tokens) =
              (case loop U A w tokens of (out, how) \<Rightarrow> (token # out, how)))"
proof (intro conjI allI impI)
  fix c
  assume "scan A token tokens 0 = Some c"
  from scan_Some [OF this] show "2 \<le> length c" by auto
next
  assume no_key: "\<forall>k. map_of A k \<noteq> None \<and> 2 \<le> length k \<longrightarrow> \<not> prefix k (token # tokens)"
  have sc: "scan A token tokens 0 = None"
  proof (cases "scan A token tokens 0")
    case None
    then show ?thesis .
  next
    case (Some c)
    from scan_Some [OF this] obtain j where
      j: "Suc j \<le> length tokens" "c = token # take (Suc j) tokens" "map_of A c \<noteq> None"
      by auto
    from j(1,2) have "2 \<le> length c" "prefix c (token # tokens)"
      by (simp_all add: take_is_prefix)
    with j(3) no_key show ?thesis by blast
  qed
  have "take 1 [token] \<in> abbrev_prefixes A"
    using take_in_abbrev_prefixes [OF key_in_table [OF assms], of 1] by simp
  then have pre1: "[token] \<in> abbrev_prefixes A" by simp
  show b: "body U A w token tokens = ([token], Continue w tokens)"
    by (simp add: body_def pre1 sc)
  show "loop U A w (token # tokens) =
      (case loop U A w tokens of (out, how) \<Rightarrow> (token # out, how))"
    by (simp add: loop.simps(2) [of U A w token tokens] b)
qed

text \<open>
  An instance: the key of one token of the table of the source, \<^verbatim>\<open>('d.v.s',)\<close>, before
  a period.
\<close>

theorem single_token_key_never_folded_witness:
  "map_of ABBREVS [Some (str ''d.v.s'')] = Some (str ''d.v.s'') \<and>
   body latin1 ABBREVS False (Some (str ''d.v.s'')) [Some (str ''.'')] =
     ([Some (str ''d.v.s'')], Continue False [Some (str ''.'')])"
proof -
  let ?token = "Some (str ''d.v.s'')"
  let ?tokens = "[Some (str ''.'')]"
  have key: "map_of ABBREVS [?token] = Some (str ''d.v.s'')" by code_simp
  have none: "map_of ABBREVS [?token, Some (str ''.'')] = None" by code_simp
  have no_key: "\<forall>k. map_of ABBREVS k \<noteq> None \<and> 2 \<le> length k \<longrightarrow> \<not> prefix k (?token # ?tokens)"
  proof (intro allI impI notI)
    fix k
    assume a: "map_of ABBREVS k \<noteq> None \<and> 2 \<le> length k" and p: "prefix k (?token # ?tokens)"
    from p obtain r where r: "?token # ?tokens = k @ r" by (auto simp: prefix_def)
    then have "length k + length r = 2" by (metis length_append length_Cons list.size(3) numeral_2_eq_2)
    with a have "length r = 0" by arith
    then have "r = []" by simp
    with r have "k = ?token # ?tokens" by simp
    with a none show False by simp
  qed
  from single_token_key_never_folded [OF key, of ?tokens latin1 False] no_key key
  show ?thesis by blast
qed

subsection \<open>Where the boundary test runs\<close>

text \<open>
  A token that starts a key while the scan finds none is yielded alone, and the rest
  of the stream is resolved with the flag as it was.
\<close>

lemma loop_prefix_no_match:
  assumes "[token] \<in> abbrev_prefixes A" "scan A token tokens 0 = None"
  shows "loop U A w (token # tokens) =
     (case loop U A w tokens of (out, how) \<Rightarrow> (token # out, how))"
proof -
  from assms have "body U A w token tokens = ([token], Continue w tokens)"
    by (simp add: body_def)
  then show ?thesis by (simp add: loop.simps(2) [of U A w token tokens])
qed

text \<open>
  The branch of a token that starts no key, in terms of the flag: with an item after the
  token, the token is yielded, then a marker exactly when the flag is not set and the
  heuristic holds, and the rest of the stream is resolved with the flag reset; with no
  item after it the token is yielded and no marker.
\<close>

lemma loop_no_prefix:
  "([token] \<notin> abbrev_prefixes A \<and> token \<noteq> Some [] \<and> next_token \<noteq> Some [] \<longrightarrow>
      loop U A w (token # next_token # tokens) =
        (case loop U A False (next_token # tokens) of
           (out, how) \<Rightarrow>
             (token # (if \<not> w \<and> sentence_break U token next_token then [None] else []) @ out,
              how))) \<and>
   ([token] \<notin> abbrev_prefixes A \<longrightarrow> fst (loop U A w [token]) = [token])"
proof (intro conjI impI)
  assume a: "[token] \<notin> abbrev_prefixes A \<and> token \<noteq> Some [] \<and> next_token \<noteq> Some []"
  then have "body U A w token (next_token # tokens) =
      (token # (if \<not> w \<and> sentence_break U token next_token then [None] else []),
       Continue False (next_token # tokens))"
    by (simp add: body_no_prefix)
  then show "loop U A w (token # next_token # tokens) =
      (case loop U A False (next_token # tokens) of
         (out, how) \<Rightarrow>
           (token # (if \<not> w \<and> sentence_break U token next_token then [None] else []) @ out,
            how))"
    by (simp add: loop.simps(2) [of U A w token "next_token # tokens"])
next
  assume "[token] \<notin> abbrev_prefixes A"
  then show "fst (loop U A w [token]) = [token]"
    by (simp add: loop.simps(2) [of U A w token "[]"] body_no_prefix_last)
qed

text \<open>
  C4. The code runs the boundary test and resets the flag only in the branch of a token
  that starts no key; a token that starts a key while no key matches is yielded with no
  test and leaves the flag as it is. The word \<^verbatim>\<open>i\<close> starts the key \<^verbatim>\<open>('i', 'st', 'f')\<close> of
  the table of the source. In \<^verbatim>\<open>osv. i. Han\<close> the flag that the folded \<^verbatim>\<open>osv.\<close> sets is
  still set after the plain token \<^verbatim>\<open>i\<close>, so no marker follows the period before \<^verbatim>\<open>Han\<close>,
  though the heuristic holds there and the emission before the period is no
  abbreviation; in \<^verbatim>\<open>osv. x. Han\<close>, where \<^verbatim>\<open>x\<close> starts no key, the marker is yielded. And
  with a key \<^verbatim>\<open>('!', '?')\<close> in the table, the token \<^verbatim>\<open>!\<close> before \<^verbatim>\<open>Vad\<close> passes the
  heuristic with the flag not set, yet no marker follows it.
\<close>

theorem flag_survives_prefix_token:
  "[Some (str ''i'')] \<in> abbrev_prefixes ABBREVS \<and>
   scan ABBREVS (Some (str ''i'')) (strs [''.'', ''Han'']) 0 = None \<and>
   body latin1 ABBREVS True (Some (str ''i'')) (strs [''.'', ''Han'']) =
     ([Some (str ''i'')], Continue True (strs [''.'', ''Han''])) \<and>
   [Some (str ''.'')] \<notin> abbrev_prefixes ABBREVS \<and>
   sentence_break latin1 (Some (str ''.'')) (Some (str ''Han'')) \<and>
   tokenize latin1 (str ''osv. i. Han'') = strs [''osv'', ''.'', ''i'', ''.'', ''Han''] \<and>
   fst (join_abbrevs latin1 ABBREVS (tokenize latin1 (str ''osv. i. Han''))) =
     strs [''osv.'', ''i'', ''.'', ''Han''] \<and>
   fst (join_abbrevs latin1 ABBREVS (tokenize latin1 (str ''osv. x. Han''))) =
     strs [''osv.'', ''x'', ''.''] @ [None] @ strs [''Han''] \<and>
   sentence_break latin1 (Some (str ''!'')) (Some (str ''Vad'')) \<and>
   body latin1 excl_table False (Some (str ''!'')) (strs [''Vad'']) =
     ([Some (str ''!'')], Continue False (strs [''Vad'']))"
  by code_simp

section \<open>The pipeline on the documented inputs\<close>

text \<open>
  C1. On \<^verbatim>\<open>Dr. Andersson kom.\<close> the Lexer yields five tokens and the Resolver folds the
  first two and yields no marker after the abbreviation. The last token, the period,
  starts no key: after yielding it the Resolver peeks at the next item outside the
  \<^verbatim>\<open>try\<close> statement, and the \<^verbatim>\<open>StopIteration\<close> of the exhausted stream leaves the frame.
  The Grouper receives a \<^verbatim>\<open>RuntimeError\<close> in its loop and yields no sentence.
\<close>

theorem pipeline_dr_andersson:
  "tokenize latin1 (str ''Dr. Andersson kom.'') =
     [Some (str ''Dr''), Some (str ''.''), Some (str ''Andersson''), Some (str ''kom''),
      Some (str ''.'')] \<and>
   join_abbrevs_frame latin1 dr_table (tokenize latin1 (str ''Dr. Andersson kom.'')) =
     ([Some (str ''Dr.''), Some (str ''Andersson''), Some (str ''kom''), Some (str ''.'')],
      Raised StopIteration) \<and>
   pipeline latin1 dr_table (str ''Dr. Andersson kom.'') = ([], Raised RuntimeError)"
  by code_simp

text \<open>
  The items the Resolver yields for the text of C1, grouped as a stream that ends
  normally, are the one sentence of the claim: the abbreviation is folded and no marker
  follows it.
\<close>

lemma dr_andersson_items_grouped:
  "group_sentences
     (fst (join_abbrevs_frame latin1 dr_table (tokenize latin1 (str ''Dr. Andersson kom.''))),
      Returned) =
     ([[str ''Dr.'', str ''Andersson'', str ''kom'', str ''.'']], Returned)"
  by code_simp

text \<open>
  C3. On \<^verbatim>\<open>... se Dr.\<close> the final period is folded into the abbreviation: the test for
  the final period compares the token that starts the candidate, here \<^verbatim>\<open>Dr\<close>, with the
  period, and the last item of the candidate with the marker.
\<close>

theorem pipeline_se_dr:
  "tokenize latin1 (str ''... se Dr.'') =
     [Some (str ''...''), Some (str ''se''), Some (str ''Dr''), Some (str ''.'')] \<and>
   pipeline latin1 dr_table (str ''... se Dr.'') =
     ([[str ''...'', str ''se'', str ''Dr.'']], Returned)"
  by code_simp

text \<open>
  C5. With the empty table and the one token \<^verbatim>\<open>a\<close>, the Resolver yields the token; the
  peek at the next item then raises past the end of the stream, and the consumer of the
  generator receives a \<^verbatim>\<open>RuntimeError\<close>.
\<close>

theorem join_abbrevs_peek_past_end:
  "peek1 [] = Inl StopIteration \<and>
   join_abbrevs_frame latin1 [] [Some (str ''a'')] = ([Some (str ''a'')], Raised StopIteration) \<and>
   join_abbrevs latin1 [] [Some (str ''a'')] = ([Some (str ''a'')], Raised RuntimeError) \<and>
   pipeline latin1 [] (str ''a'') = ([], Raised RuntimeError)"
  by code_simp

text \<open>
  The same on every stream whose last item starts no key, when the round of that item
  is reached: the frame ends with the exception.
\<close>

lemma loop_snoc_no_prefix:
  "[token] \<notin> abbrev_prefixes A \<Longrightarrow> loop U A w [token] = ([token], Raised StopIteration)"
  by (simp add: loop.simps(2) [of U A w token "[]"] body_no_prefix_last)

lemma join_abbrevs_empty_table_raises:
  assumes "tokens \<noteq> []"
  shows "snd (join_abbrevs U [] tokens) \<noteq> Returned"
proof -
  have "snd (loop U [] w tokens) \<noteq> Returned" for w
    using assms
  proof (induction tokens arbitrary: w)
    case Nil
    then show ?case by simp
  next
    case (Cons token tokens)
    have np: "[token] \<notin> abbrev_prefixes []" by (simp add: abbrev_prefixes_empty)
    show ?case
    proof (cases tokens)
      case Nil
      with np show ?thesis by (simp add: loop_snoc_no_prefix)
    next
      case (Cons next_token rest)
      then have ih: "snd (loop U [] False (next_token # rest)) \<noteq> Returned"
        using Cons.IH by simp
      have "snd (loop U [] w (token # next_token # rest)) \<noteq> Returned"
        using ih np
        by (auto simp: loop.simps(2) [of U "[]" w token "next_token # rest"] body_def peek1_def
            split: sum.splits prod.splits)
      with Cons show ?thesis by simp
    qed
  qed
  then have "snd (loop U [] False tokens) \<noteq> Returned" .
  then show ?thesis
    by (cases "loop U [] False tokens")
      (auto simp: join_abbrevs_def join_abbrevs_frame_def generator_def
        split: outcome.splits exn.splits)
qed

end
